theory Spec2Isabelle
  imports Main "HOL-Library.Multiset"
begin

section \<open>Event emitters\<close>

text \<open>
  The program is \<^verbatim>\<open>src/extension.ts\<close>: the image-check provider \<^verbatim>\<open>check\<close> and
  the event race \<^verbatim>\<open>first\<close> with its helper \<^verbatim>\<open>listener\<close>.

  The sources that \<^verbatim>\<open>first\<close> watches are Node \<^verbatim>\<open>EventEmitter\<close> objects. The class
  comes from Node's \<^verbatim>\<open>events\<close> module, not from the repository, so the three methods
  the program calls are modelled here after Node's documented behaviour:
  \<^item> \<^verbatim>\<open>on(event, fn)\<close> appends \<^verbatim>\<open>fn\<close> to the listener array of \<^verbatim>\<open>event\<close>;
  \<^item> \<^verbatim>\<open>removeListener(event, fn)\<close> removes the most recently added instance of
    \<^verbatim>\<open>fn\<close> from that array, and does nothing when there is none;
  \<^item> \<^verbatim>\<open>emit(event, ...args)\<close> copies the listener array and calls every listener of
    the copy in order, with \<^verbatim>\<open>this\<close> bound to the emitter; listeners removed while the
    emit is in progress are still called.

  An emitter is identified by a number (object identity). A listener is either a
  function registered by other code (\<open>Foreign\<close>, whose invocation does not touch the
  race) or one of the closures \<^verbatim>\<open>onevent\<close> that \<^verbatim>\<open>listener(event, callback)\<close> returns:
  \<open>Onevent k ev\<close> is the closure made by the \<open>k\<close>-th such call of the race, closed over
  the event name \<open>ev\<close>. Every call makes a new function object, which the index records.

  In \<open>emit\<close> and \<open>run\<close> below the listeners of other code and the completion
  callback do nothing to the sources while an event is delivered. The section on
  listeners that act lifts this: there they emit, cancel and call the controller.

  Outside the model: Node's meta events \<^verbatim>\<open>newListener\<close> and \<^verbatim>\<open>removeListener\<close>, the
  exception Node raises to the caller of \<^verbatim>\<open>emit('error')\<close> when no listener is
  registered, and other code that attaches or detaches listeners while a race runs.
\<close>

type_synonym ee = nat
type_synonym event = string

datatype jsval = JUndefined | JNull | JBool bool | JNum int | JStr string | JError string

datatype handler = Foreign nat | Onevent nat event

type_synonym emitters = "ee \<Rightarrow> event \<Rightarrow> handler list"

fun is_onevent :: "handler \<Rightarrow> bool" where
  "is_onevent (Onevent k ev) = True"
| "is_onevent (Foreign n) = False"

definition on :: "ee \<Rightarrow> event \<Rightarrow> handler \<Rightarrow> emitters \<Rightarrow> emitters" where
  "on e ev f em = em(e := (em e)(ev := em e ev @ [f]))"

definition remove_last :: "'a \<Rightarrow> 'a list \<Rightarrow> 'a list" where
  "remove_last x xs = rev (remove1 x (rev xs))"

definition removeListener :: "ee \<Rightarrow> event \<Rightarrow> handler \<Rightarrow> emitters \<Rightarrow> emitters" where
  "removeListener e ev f em = em(e := (em e)(ev := remove_last f (em e ev)))"

text \<open>
  The listener tables that exist before a race starts hold foreign listeners only: the
  closures of a race are created by the race.
\<close>

definition host :: "(ee \<Rightarrow> event \<Rightarrow> nat list) \<Rightarrow> emitters" where
  "host tbl = (\<lambda>e ev. map Foreign (tbl e ev))"

definition no_listeners :: "ee \<Rightarrow> event \<Rightarrow> nat list" where
  "no_listeners e ev = []"

section \<open>The race: \<^verbatim>\<open>first\<close> and \<^verbatim>\<open>listener\<close>\<close>

text \<open>
  The argument \<^verbatim>\<open>stuff\<close> is untyped in the source. It is either not an array or an array
  of members; a member is either not an array, the empty array, or an array
  \<^verbatim>\<open>[ee, events...]\<close> whose first element is an emitter and whose other elements are
  event names (\<open>Arr e evs\<close> has length \<open>1 + length evs\<close>).
\<close>

datatype member = NonArray | Arr0 | Arr ee "event list"

datatype stuff = NotArray | Array "member list"

datatype error = TypeError string

record cleanup_entry =
  x_ee :: ee
  x_event :: event
  x_fn :: handler

text \<open>The four arguments \<^verbatim>\<open>(err, ee, event, args)\<close> of the completion callback.\<close>

type_synonym call = "jsval \<times> ee \<times> event \<times> jsval list"

text \<open>
  The variables the closures \<^verbatim>\<open>callback\<close>, \<^verbatim>\<open>cleanup\<close> and \<^verbatim>\<open>thunk\<close> share: the array
  \<^verbatim>\<open>cleanups\<close> and the completion callback \<^verbatim>\<open>done\<close>, which acts on the caller's state
  \<open>'u\<close>. The value \<^verbatim>\<open>first\<close> returns is the function \<^verbatim>\<open>thunk\<close> over these variables.
\<close>

record 'u race =
  cleanups :: "cleanup_entry list"
  done_fn :: "call \<Rightarrow> 'u \<Rightarrow> 'u"

record 'u world =
  emitters :: emitters
  user :: 'u

text \<open>The inner loop over \<^verbatim>\<open>j\<close>: one new listener for each event name of a member.\<close>

fun attach_events :: "ee \<Rightarrow> event list \<Rightarrow> emitters \<times> cleanup_entry list
    \<Rightarrow> emitters \<times> cleanup_entry list" where
  "attach_events e [] (em, cl) = (em, cl)"
| "attach_events e (ev # evs) (em, cl) =
     (let fn = Onevent (length cl) ev
      in attach_events e evs
           (on e ev fn em, cl @ [\<lparr>x_ee = e, x_event = ev, x_fn = fn\<rparr>]))"

text \<open>
  The outer loop over \<^verbatim>\<open>i\<close>. A member is checked when the loop reaches it; the
  exception carries the listener tables as they are at that moment.
\<close>

fun attach_members :: "member list \<Rightarrow> emitters \<times> cleanup_entry list
    \<Rightarrow> (error \<times> emitters) + (emitters \<times> cleanup_entry list)" where
  "attach_members [] (em, cl) = Inr (em, cl)"
| "attach_members (NonArray # ms) (em, cl) =
     Inl (TypeError ''each array member must be [ee, events...]'', em)"
| "attach_members (Arr0 # ms) (em, cl) =
     Inl (TypeError ''each array member must be [ee, events...]'', em)"
| "attach_members (Arr e evs # ms) (em, cl) =
     (if 1 + length evs < 2
      then Inl (TypeError ''each array member must be [ee, events...]'', em)
      else attach_members ms (attach_events e evs (em, cl)))"

fun first :: "stuff \<Rightarrow> (call \<Rightarrow> 'u \<Rightarrow> 'u) \<Rightarrow> emitters
    \<Rightarrow> (error \<times> emitters) + ('u race \<times> emitters)" where
  "first NotArray dn em =
     Inl (TypeError ''arg must be an array of [ee, events...] arrays'', em)"
| "first (Array ms) dn em =
     (case attach_members ms (em, []) of
        Inl thrown \<Rightarrow> Inl thrown
      | Inr (em', cl) \<Rightarrow> Inr (\<lparr>cleanups = cl, done_fn = dn\<rparr>, em'))"

definition cleanup :: "cleanup_entry list \<Rightarrow> emitters \<Rightarrow> emitters" where
  "cleanup cl em = foldl (\<lambda>m x. removeListener (x_ee x) (x_event x) (x_fn x) m) em cl"

definition callback :: "'u race \<Rightarrow> call \<Rightarrow> 'u world \<Rightarrow> 'u world" where
  "callback r c w =
     \<lparr>emitters = cleanup (cleanups r) (emitters w), user = done_fn r c (user w)\<rparr>"

definition thunk :: "(call \<Rightarrow> 'u \<Rightarrow> 'u) \<Rightarrow> 'u race \<Rightarrow> 'u race" where
  "thunk fn r = r\<lparr>done_fn := fn\<rparr>"

definition cancel :: "'u race \<Rightarrow> 'u world \<Rightarrow> 'u world" where
  "cancel r w = w\<lparr>emitters := cleanup (cleanups r) (emitters w)\<rparr>"

text \<open>\<^verbatim>\<open>arguments[0]\<close> of a call: \<^verbatim>\<open>undefined\<close> when the call has no argument.\<close>

fun arg1 :: "jsval list \<Rightarrow> jsval" where
  "arg1 [] = JUndefined"
| "arg1 (a # as) = a"

text \<open>
  \<^verbatim>\<open>listener(event, done)\<close> returns \<^verbatim>\<open>onevent\<close>; the model gives the closure its
  \<^verbatim>\<open>this\<close> and its argument list.
\<close>

definition listener :: "event \<Rightarrow> (call \<Rightarrow> 'w \<Rightarrow> 'w) \<Rightarrow> ee \<Rightarrow> jsval list \<Rightarrow> 'w \<Rightarrow> 'w" where
  "listener ev dn this args =
     (let err = (if ev = ''error'' then arg1 args else JNull)
      in dn (err, this, ev, args))"

fun invoke :: "'u race \<Rightarrow> ee \<Rightarrow> jsval list \<Rightarrow> handler \<Rightarrow> 'u world \<Rightarrow> 'u world" where
  "invoke r this args (Foreign n) w = w"
| "invoke r this args (Onevent k ev) w = listener ev (callback r) this args w"

definition emit :: "'u race \<Rightarrow> ee \<Rightarrow> event \<Rightarrow> jsval list \<Rightarrow> 'u world \<Rightarrow> 'u world" where
  "emit r e ev args w = foldl (\<lambda>w' f. invoke r e args f w') w (emitters w e ev)"

text \<open>What can happen to a race after \<^verbatim>\<open>first\<close> has returned.\<close>

datatype action = Emit ee event "jsval list" | Cancel

fun step :: "'u race \<Rightarrow> 'u world \<Rightarrow> action \<Rightarrow> 'u world" where
  "step r w (Emit e ev args) = emit r e ev args w"
| "step r w Cancel = cancel r w"

definition run :: "'u race \<Rightarrow> action list \<Rightarrow> 'u world \<Rightarrow> 'u world" where
  "run r acts w = foldl (step r) w acts"

text \<open>A completion callback that records each of its invocations.\<close>

definition record_call :: "call \<Rightarrow> call list \<Rightarrow> call list" where
  "record_call c log = log @ [c]"

section \<open>The check provider\<close>

text \<open>
  \<^verbatim>\<open>check\<close> of \<^verbatim>\<open>registerProvider(data, timeout, name)\<close>. The findings are values of the
  host's type \<^verbatim>\<open>ImageCheck\<close>, which the program never inspects: a type parameter.
  The promise is the caller's state of the race.
\<close>

record 'c image_checks =
  checks :: "'c list"

datatype 'c promise = Pending | Resolved "'c image_checks" | Rejected string

definition resolve :: "'c image_checks \<Rightarrow> 'c promise \<Rightarrow> 'c promise" where
  "resolve v p = (case p of Pending \<Rightarrow> Resolved v | _ \<Rightarrow> p)"

definition cancelEmitter :: ee where
  "cancelEmitter = 0"

definition doneEmitter :: ee where
  "doneEmitter = 1"

text \<open>The function passed to \<^verbatim>\<open>first\<close> in \<^verbatim>\<open>check\<close>.\<close>

fun on_first :: "'c list \<Rightarrow> call \<Rightarrow> 'c promise \<Rightarrow> 'c promise" where
  "on_first data (err, this, event, args) p =
     (if event = ''done'' then resolve \<lparr>checks = data\<rparr> p
      else resolve \<lparr>checks = []\<rparr> p)"

text \<open>
  The two emitters are new objects, so their listener tables are empty. An exception
  thrown inside the promise's executor rejects the promise.
\<close>

datatype host_event = CancellationRequested | TimerFired

fun host_action :: "host_event \<Rightarrow> action" where
  "host_action CancellationRequested = Emit cancelEmitter ''cancel'' []"
| "host_action TimerFired = Emit doneEmitter ''done'' []"

definition check :: "'c list \<Rightarrow> host_event list \<Rightarrow> 'c promise" where
  "check data evs =
     (case first (Array [Arr cancelEmitter [''cancel''], Arr doneEmitter [''done'']])
             (on_first data) (host no_listeners) of
        Inl (TypeError msg, em) \<Rightarrow> Rejected msg
      | Inr (r, em) \<Rightarrow>
          user (run r (map host_action evs) \<lparr>emitters = em, user = Pending\<rparr>))"

section \<open>Listeners that act during a delivery\<close>

text \<open>
  A listener of other code, and the completion callback, are functions: they may call
  \<^verbatim>\<open>emit\<close> on a source, \<^verbatim>\<open>cancel()\<close> on the controller, or the controller itself,
  \<^verbatim>\<open>thunk(fn)\<close>, which stores another function in \<^verbatim>\<open>done\<close>. These are the operations
  \<open>op\<close>; \<open>CallThunk j\<close> installs the function number \<open>j\<close>, which is not the callback
  given to \<^verbatim>\<open>first\<close>. \<open>who\<close> names the function \<^verbatim>\<open>done\<close> holds, and each callback
  records its invocations under its own name.
\<close>

datatype op = Fire ee event "jsval list" | CallCancel | CallThunk nat

datatype who = OnSettle | Other nat

type_synonym journal = "(who \<times> call) list"

definition recorder :: "who \<Rightarrow> call \<Rightarrow> journal \<Rightarrow> journal" where
  "recorder wh c log = log @ [(wh, c)]"

text \<open>
  Calls nest: a listener called by \<^verbatim>\<open>emit\<close> calls \<^verbatim>\<open>emit\<close> again. The nesting depth
  is bounded by a number; a call beyond it does not return but raises (Node's
  \<^verbatim>\<open>RangeError\<close> of an exhausted stack), nothing in the program catches it, and the
  run ends there, \<open>Aborted\<close>, in the state it has reached.
\<close>

datatype 'a progress = Completed (content: 'a) | Aborted (content: 'a)

fun completed :: "'a progress \<Rightarrow> bool" where
  "completed (Completed s) = True"
| "completed (Aborted s) = False"

fun sequence :: "('a \<Rightarrow> 's \<Rightarrow> 's progress) \<Rightarrow> 'a list \<Rightarrow> 's \<Rightarrow> 's progress" where
  "sequence f [] s = Completed s"
| "sequence f (x # xs) s =
     (case f x s of Completed s' \<Rightarrow> sequence f xs s' | Aborted s' \<Rightarrow> Aborted s')"

text \<open>
  A scene is the function \<^verbatim>\<open>done\<close> holds and the world. \<open>fb n\<close> is the body of the
  listener \<open>Foreign n\<close>: the operations it performs when called. \<open>cb wh c\<close> is what the
  callback \<open>wh\<close> performs, after its invocation has been recorded, when called with
  \<open>c\<close>. \<open>call_listener\<close> is one listener call of an \<^verbatim>\<open>emit\<close>: a foreign listener runs
  its body; a closure \<^verbatim>\<open>onevent\<close> runs \<open>listener\<close> with \<open>callback\<close> of the race as it is
  after \<^verbatim>\<open>thunk\<close>, and the callback then runs its body. \<open>nested\<close> performs the
  operations of a body, one level deeper.
\<close>

type_synonym scene = "who \<times> journal world"

definition call_listener :: "(op \<Rightarrow> scene \<Rightarrow> scene progress) \<Rightarrow> (nat \<Rightarrow> op list)
    \<Rightarrow> (who \<Rightarrow> call \<Rightarrow> op list) \<Rightarrow> journal race \<Rightarrow> ee \<Rightarrow> jsval list \<Rightarrow> handler
    \<Rightarrow> scene \<Rightarrow> scene progress" where
  "call_listener nested fb cb r this args f s =
     (case f of
        Foreign n \<Rightarrow> sequence nested (fb n) s
      | Onevent j ev \<Rightarrow>
          (let (w', body) =
                 listener ev
                   (\<lambda>c (w, body). (callback (thunk (recorder (fst s)) r) c w, cb (fst s) c))
                   this args (snd s, [])
           in sequence nested body (fst s, w')))"

text \<open>
  \<open>perform k\<close> performs one operation with \<open>k\<close> levels of calls left. \<^verbatim>\<open>emit\<close> calls
  the listeners of its copy of the listener array in order.
\<close>

primrec perform :: "nat \<Rightarrow> (nat \<Rightarrow> op list) \<Rightarrow> (who \<Rightarrow> call \<Rightarrow> op list) \<Rightarrow> journal race
    \<Rightarrow> op \<Rightarrow> scene \<Rightarrow> scene progress" where
  "perform 0 fb cb r a s = Aborted s"
| "perform (Suc k) fb cb r a s =
     (case a of
        Fire e ev args \<Rightarrow>
          sequence (call_listener (perform k fb cb r) fb cb r e args) (emitters (snd s) e ev) s
      | CallCancel \<Rightarrow> Completed (fst s, cancel (thunk (recorder (fst s)) r) (snd s))
      | CallThunk j \<Rightarrow> Completed (Other j, snd s))"

section \<open>Vocabulary of the properties\<close>

text \<open>
  The definitions of this section are not code of the program: they name what the
  properties below speak about.

  \<open>watched ms\<close> lists the (source, event name) combinations of the members in input
  order, one for each listener that \<^verbatim>\<open>first\<close> attaches. A member is well formed when
  it is an array of an emitter and at least one event name.
\<close>

fun watched :: "member list \<Rightarrow> (ee \<times> event) list" where
  "watched [] = []"
| "watched (Arr e evs # ms) = map (Pair e) evs @ watched ms"
| "watched (m # ms) = watched ms"

fun well_formed :: "member \<Rightarrow> bool" where
  "well_formed (Arr e evs) = (evs \<noteq> [])"
| "well_formed m = False"

text \<open>
  The action that settles a race watching \<open>ks\<close>: the first action that is either a
  call of \<^verbatim>\<open>cancel()\<close> or the emission of a watched event. \<open>None\<close> when there is no
  such action.
\<close>

fun winner :: "(ee \<times> event) list \<Rightarrow> action list \<Rightarrow> action option" where
  "winner ks [] = None"
| "winner ks (Cancel # acts) = Some Cancel"
| "winner ks (Emit e ev args # acts) =
     (if (e, ev) \<in> set ks then Some (Emit e ev args) else winner ks acts)"

text \<open>
  \<open>invocations s tbl acts\<close> starts a race on \<open>s\<close> with the recording callback, on
  emitters whose tables hold the foreign listeners \<open>tbl\<close>, then performs \<open>acts\<close>. It
  gives the exception of \<^verbatim>\<open>first\<close>, or the invocations of the callback in order.
\<close>

definition invocations :: "stuff \<Rightarrow> (ee \<Rightarrow> event \<Rightarrow> nat list) \<Rightarrow> action list
    \<Rightarrow> error + call list" where
  "invocations s tbl acts =
     (case first s record_call (host tbl) of
        Inl (err, em) \<Rightarrow> Inl err
      | Inr (r, em) \<Rightarrow> Inr (user (run r acts \<lparr>emitters = em, user = []\<rparr>)))"

text \<open>The listeners of \<open>ev\<close> on \<open>e\<close> at the moment \<^verbatim>\<open>first\<close> threw.\<close>

definition listeners_at_throw :: "(error \<times> emitters) + 'a \<Rightarrow> ee \<Rightarrow> event
    \<Rightarrow> handler list option" where
  "listeners_at_throw res e ev =
     (case res of Inl (err, em) \<Rightarrow> Some (em e ev) | Inr v \<Rightarrow> None)"





text \<open>
  Listeners and callbacks of the examples. \<open>idle\<close> and \<open>silent\<close> do nothing. The relay
  is a listener on \<^verbatim>\<open>'a'\<close> of source 0 that emits \<^verbatim>\<open>'b'\<close> there. The meddler is a
  listener on \<^verbatim>\<open>'x'\<close> of source 0 that calls \<^verbatim>\<open>cancel()\<close>. The chatty listener on
  \<^verbatim>\<open>'b'\<close> of source 0 emits \<^verbatim>\<open>'log'\<close> on source 2, where another listener waits; the
  eager callback emits \<^verbatim>\<open>'a'\<close> on source 1 and calls \<^verbatim>\<open>cancel()\<close>.
\<close>

definition idle :: "nat \<Rightarrow> op list" where
  "idle n = []"

definition silent :: "who \<Rightarrow> call \<Rightarrow> op list" where
  "silent wh c = []"








section \<open>Auxiliary definitions\<close>

text \<open>
  The array \<^verbatim>\<open>cleanups\<close> that the loops build for the combinations \<open>ks\<close>, starting
  at closure number \<open>n\<close>; the closures it holds for one source and event; the effect
  of the calls of \<^verbatim>\<open>on\<close> and of \<^verbatim>\<open>removeListener\<close> on one table.
\<close>

fun entries :: "nat \<Rightarrow> (ee \<times> event) list \<Rightarrow> cleanup_entry list" where
  "entries n [] = []"
| "entries n ((e, ev) # ks) =
     \<lparr>x_ee = e, x_event = ev, x_fn = Onevent n ev\<rparr> # entries (Suc n) ks"

definition mine :: "cleanup_entry list \<Rightarrow> ee \<Rightarrow> event \<Rightarrow> handler list" where
  "mine cl e ev = map x_fn (filter (\<lambda>x. x_ee x = e \<and> x_event x = ev) cl)"

definition attach_all :: "cleanup_entry list \<Rightarrow> emitters \<Rightarrow> emitters" where
  "attach_all xs em = foldl (\<lambda>m x. on (x_ee x) (x_event x) (x_fn x) m) em xs"

definition remove_each :: "handler list \<Rightarrow> handler list \<Rightarrow> handler list" where
  "remove_each fs xs = foldl (\<lambda>ys f. remove_last f ys) xs fs"

definition err_of :: "event \<Rightarrow> jsval list \<Rightarrow> jsval" where
  "err_of ev args = (if ev = ''error'' then arg1 args else JNull)"

text \<open>The combinations that \<^verbatim>\<open>check\<close> watches.\<close>

definition check_watched :: "(ee \<times> event) list" where
  "check_watched = [(cancelEmitter, ''cancel''), (doneEmitter, ''done'')]"

text \<open>The listener tables right after \<^verbatim>\<open>first\<close> has returned.\<close>

definition armed :: "(ee \<Rightarrow> event \<Rightarrow> nat list) \<Rightarrow> (ee \<times> event) list \<Rightarrow> emitters" where
  "armed tbl ks = (\<lambda>e ev. map Foreign (tbl e ev) @ mine (entries 0 ks) e ev)"

text \<open>The world a race reaches, told from the action that settles it.\<close>

fun outcome :: "(call \<Rightarrow> 'u \<Rightarrow> 'u) \<Rightarrow> (ee \<Rightarrow> event \<Rightarrow> nat list) \<Rightarrow> (ee \<times> event) list
    \<Rightarrow> 'u \<Rightarrow> action option \<Rightarrow> 'u world" where
  "outcome dn tbl ks u None = \<lparr>emitters = armed tbl ks, user = u\<rparr>"
| "outcome dn tbl ks u (Some Cancel) = \<lparr>emitters = host tbl, user = u\<rparr>"
| "outcome dn tbl ks u (Some (Emit e ev args)) =
     \<lparr>emitters = host tbl,
      user = (dn (err_of ev args, e, ev, args) ^^ count_list ks (e, ev)) u\<rparr>"

text \<open>
  An action as an operation, and the invocations a completed run records from a race
  that is still armed and whose \<^verbatim>\<open>done\<close> holds \<open>wh\<close>.
\<close>

fun embed :: "action \<Rightarrow> op" where
  "embed (Emit e ev args) = Fire e ev args"
| "embed Cancel = CallCancel"


section \<open>Attaching and detaching listeners\<close>

lemma entries_append: "entries n (ks @ ks') = entries n ks @ entries (n + length ks) ks'"
  by (induction ks arbitrary: n) auto

lemma length_entries [simp]: "length (entries n ks) = length ks"
  by (induction ks arbitrary: n) auto

lemma attach_all_append: "attach_all (xs @ ys) em = attach_all ys (attach_all xs em)"
  by (simp add: attach_all_def)

lemma attach_events_entries:
  "attach_events e evs (em, cl) =
     (attach_all (entries (length cl) (map (Pair e) evs)) em,
      cl @ entries (length cl) (map (Pair e) evs))"
proof (induction evs arbitrary: em cl)
  case Nil
  then show ?case by (simp add: attach_all_def)
next
  case (Cons ev evs)
  then show ?case by (simp add: attach_all_def Let_def)
qed

lemma attach_members_entries:
  "attach_members ms (em, cl) = Inr (em', cl') \<Longrightarrow>
     em' = attach_all (entries (length cl) (watched ms)) em \<and>
     cl' = cl @ entries (length cl) (watched ms)"
proof (induction ms arbitrary: em cl)
  case Nil
  then show ?case by (simp add: attach_all_def)
next
  case (Cons m ms)
  show ?case
  proof (cases m)
    case (Arr e evs)
    with Cons.prems have evs: "evs \<noteq> []"
      by (auto split: if_splits)
    with Cons.prems Arr have
      "attach_members ms (attach_all (entries (length cl) (map (Pair e) evs)) em,
          cl @ entries (length cl) (map (Pair e) evs)) = Inr (em', cl')"
      by (simp add: attach_events_entries)
    from Cons.IH [OF this] show ?thesis
      by (simp add: Arr entries_append attach_all_append)
  qed (use Cons.prems in auto)
qed

lemma attach_members_ok:
  "list_all well_formed ms \<Longrightarrow> \<exists>r. attach_members ms (em, cl) = Inr r"
proof (induction ms arbitrary: em cl)
  case Nil
  then show ?case by simp
next
  case (Cons m ms)
  then show ?case
    by (cases m) (auto simp: attach_events_entries)
qed

lemma attach_all_at: "attach_all xs em e ev = em e ev @ mine xs e ev"
proof (induction xs arbitrary: em)
  case Nil
  then show ?case by (simp add: attach_all_def mine_def)
next
  case (Cons x xs)
  have "attach_all (x # xs) em = attach_all xs (on (x_ee x) (x_event x) (x_fn x) em)"
    by (simp add: attach_all_def)
  then show ?case
    by (simp add: Cons.IH on_def mine_def)
qed

lemma filter_remove_last: "filter P (remove_last f xs) = remove_last f (filter P xs)"
  by (simp add: remove_last_def filter_remove1 rev_filter [symmetric])

lemma remove_last_absent: "f \<notin> set xs \<Longrightarrow> remove_last f xs = xs"
  by (simp add: remove_last_def remove1_idem)

lemma distinct_remove_last: "distinct xs \<Longrightarrow> distinct (remove_last f xs)"
  by (simp add: remove_last_def)

lemma set_remove_last: "distinct xs \<Longrightarrow> set (remove_last f xs) = set xs - {f}"
  by (simp add: remove_last_def)

lemma cleanup_at: "cleanup cl em e ev = remove_each (mine cl e ev) (em e ev)"
proof (induction cl arbitrary: em)
  case Nil
  then show ?case by (simp add: cleanup_def remove_each_def mine_def)
next
  case (Cons x cl)
  have "cleanup (x # cl) em = cleanup cl (removeListener (x_ee x) (x_event x) (x_fn x) em)"
    by (simp add: cleanup_def)
  then show ?case
    by (simp add: Cons.IH removeListener_def remove_each_def mine_def)
qed

lemma remove_each_onevent:
  "distinct (filter is_onevent xs) \<Longrightarrow> set (filter is_onevent xs) \<subseteq> set fs \<Longrightarrow>
     filter is_onevent (remove_each fs xs) = []"
proof (induction fs arbitrary: xs)
  case Nil
  then show ?case by (simp add: remove_each_def)
next
  case (Cons f fs)
  have d: "distinct (filter is_onevent (remove_last f xs))"
    using Cons.prems(1) by (simp add: filter_remove_last distinct_remove_last)
  have "set (filter is_onevent (remove_last f xs)) = set (filter is_onevent xs) - {f}"
    using Cons.prems(1) by (simp only: filter_remove_last set_remove_last)
  with Cons.prems(2) have s: "set (filter is_onevent (remove_last f xs)) \<subseteq> set fs"
    by auto
  have "remove_each (f # fs) xs = remove_each fs (remove_last f xs)"
    by (simp add: remove_each_def)
  with Cons.IH [OF d s] show ?case by simp
qed

lemma remove_each_foreign:
  "list_all is_onevent fs \<Longrightarrow>
     filter (\<lambda>f. \<not> is_onevent f) (remove_each fs xs) = filter (\<lambda>f. \<not> is_onevent f) xs"
proof (induction fs arbitrary: xs)
  case Nil
  then show ?case by (simp add: remove_each_def)
next
  case (Cons f fs)
  have "remove_each (f # fs) xs = remove_each fs (remove_last f xs)"
    by (simp add: remove_each_def)
  moreover have "filter (\<lambda>f. \<not> is_onevent f) (remove_last f xs) = filter (\<lambda>f. \<not> is_onevent f) xs"
    using Cons.prems by (simp add: filter_remove_last remove_last_absent)
  ultimately show ?case using Cons by simp
qed

lemma remove_each_absent:
  "list_all is_onevent fs \<Longrightarrow> filter is_onevent xs = [] \<Longrightarrow> remove_each fs xs = xs"
proof (induction fs)
  case Nil
  then show ?case by (simp add: remove_each_def)
next
  case (Cons f fs)
  from Cons.prems have "f \<notin> set xs"
    by (auto simp: filter_empty_conv)
  then have "remove_each (f # fs) xs = remove_each fs xs"
    by (simp add: remove_each_def remove_last_absent)
  with Cons show ?case by simp
qed

lemma mine_entries_onevent: "list_all is_onevent (mine (entries n ks) e ev)"
  by (induction n ks rule: entries.induct) (auto simp: mine_def)

lemma mine_entries_event: "f \<in> set (mine (entries n ks) e ev) \<Longrightarrow> \<exists>k. f = Onevent k ev"
  by (induction n ks rule: entries.induct) (auto simp: mine_def split: if_splits)

lemma mine_entries_bound: "Onevent k ev' \<in> set (mine (entries n ks) e ev) \<Longrightarrow> n \<le> k"
  by (induction n ks rule: entries.induct) (fastforce simp: mine_def split: if_splits)+

lemma distinct_mine_entries: "distinct (mine (entries n ks) e ev)"
proof (induction n ks rule: entries.induct)
  case (1 n)
  then show ?case by (simp add: mine_def)
next
  case (2 n a b ks)
  have "Onevent n b \<notin> set (mine (entries (Suc n) ks) e ev)"
    using mine_entries_bound [of n b "Suc n" ks e ev] by auto
  with 2 show ?case by (auto simp: mine_def)
qed

lemma mine_entries_count: "length (mine (entries n ks) e ev) = count_list ks (e, ev)"
  by (induction n ks rule: entries.induct) (auto simp: mine_def)

lemma mine_entries_empty: "mine (entries n ks) e ev = [] \<longleftrightarrow> (e, ev) \<notin> set ks"
  using mine_entries_count [of n ks e ev] by (simp add: count_list_0_iff del: length_0_conv flip: length_0_conv)

lemma filter_onevent_Foreign [simp]: "filter is_onevent (map Foreign ns) = []"
  by (induction ns) auto

lemma filter_not_onevent_Foreign [simp]:
  "filter (\<lambda>f. \<not> is_onevent f) (map Foreign ns) = map Foreign ns"
  by (induction ns) auto

lemma filter_all: "list_all P xs \<Longrightarrow> filter P xs = xs"
  by (induction xs) auto

lemma filter_none: "list_all P xs \<Longrightarrow> filter (\<lambda>x. \<not> P x) xs = []"
  by (induction xs) auto

lemma filter_not_id: "filter P xs = [] \<Longrightarrow> filter (\<lambda>x. \<not> P x) xs = xs"
  by (induction xs) (auto split: if_splits)

lemma first_armed:
  assumes "first (Array ms) dn (host tbl) = Inr (r, em)"
  shows "r = \<lparr>cleanups = entries 0 (watched ms), done_fn = dn\<rparr>"
    and "em = armed tbl (watched ms)"
proof -
  from assms obtain cl where am: "attach_members ms (host tbl, []) = Inr (em, cl)"
    and r: "r = \<lparr>cleanups = cl, done_fn = dn\<rparr>"
    by (auto split: sum.splits)
  from attach_members_entries [OF am]
  have cl: "cl = entries 0 (watched ms)"
    and em: "em = attach_all (entries 0 (watched ms)) (host tbl)"
    by simp_all
  show "r = \<lparr>cleanups = entries 0 (watched ms), done_fn = dn\<rparr>"
    using r cl by simp
  show "em = armed tbl (watched ms)"
    unfolding em armed_def by (intro ext) (simp add: attach_all_at host_def)
qed

lemma cleanup_armed: "cleanup (entries 0 ks) (armed tbl ks) = host tbl"
proof (intro ext)
  fix e ev
  let ?fs = "mine (entries 0 ks) e ev"
  let ?xs = "map Foreign (tbl e ev) @ ?fs"
  have on: "filter is_onevent ?xs = ?fs"
    by (simp add: filter_all mine_entries_onevent)
  have "filter is_onevent (remove_each ?fs ?xs) = []"
    by (rule remove_each_onevent) (simp_all only: on distinct_mine_entries subset_refl)
  then have "remove_each ?fs ?xs = filter (\<lambda>f. \<not> is_onevent f) (remove_each ?fs ?xs)"
    by (simp add: filter_not_id)
  also have "\<dots> = filter (\<lambda>f. \<not> is_onevent f) ?xs"
    by (rule remove_each_foreign) (rule mine_entries_onevent)
  also have "\<dots> = map Foreign (tbl e ev)"
    by (simp add: filter_none mine_entries_onevent)
  finally show "cleanup (entries 0 ks) (armed tbl ks) e ev = host tbl e ev"
    by (simp add: cleanup_at armed_def host_def)
qed

lemma cleanup_host: "cleanup (entries 0 ks) (host tbl) = host tbl"
proof (intro ext)
  fix e ev
  have "remove_each (mine (entries 0 ks) e ev) (map Foreign (tbl e ev)) = map Foreign (tbl e ev)"
    by (rule remove_each_absent) (simp_all add: mine_entries_onevent)
  then show "cleanup (entries 0 ks) (host tbl) e ev = host tbl e ev"
    by (simp add: cleanup_at host_def)
qed

lemma invoke_foreign_only:
  "filter is_onevent xs = [] \<Longrightarrow> foldl (\<lambda>w' f. invoke r e args f w') w xs = w"
proof (induction xs)
  case Nil
  then show ?case by simp
next
  case (Cons f xs)
  then show ?case by (cases f) (auto split: if_splits)
qed

lemma emit_host: "emit r e ev args \<lparr>emitters = host tbl, user = u\<rparr> = \<lparr>emitters = host tbl, user = u\<rparr>"
  by (simp add: emit_def invoke_foreign_only host_def)

lemma cancel_host:
  "cancel \<lparr>cleanups = entries 0 ks, done_fn = dn\<rparr> \<lparr>emitters = host tbl, user = u\<rparr> =
     \<lparr>emitters = host tbl, user = u\<rparr>"
  by (simp add: cancel_def cleanup_host)

lemma run_host:
  "run \<lparr>cleanups = entries 0 ks, done_fn = dn\<rparr> acts \<lparr>emitters = host tbl, user = u\<rparr> =
     \<lparr>emitters = host tbl, user = u\<rparr>"
proof (induction acts)
  case Nil
  then show ?case by (simp add: run_def)
next
  case (Cons a acts)
  then show ?case by (cases a) (simp_all add: run_def emit_host cancel_host)
qed

lemma invoke_settled:
  assumes "\<forall>f \<in> set xs. is_onevent f \<longrightarrow> (\<exists>k. f = Onevent k ev)"
  shows "foldl (\<lambda>w' f. invoke \<lparr>cleanups = entries 0 ks, done_fn = dn\<rparr> e args f w')
           \<lparr>emitters = host tbl, user = u\<rparr> xs =
         \<lparr>emitters = host tbl,
          user = (dn (err_of ev args, e, ev, args) ^^ length (filter is_onevent xs)) u\<rparr>"
  using assms
proof (induction xs arbitrary: u)
  case Nil
  then show ?case by simp
next
  case (Cons f xs)
  show ?case
  proof (cases f)
    case (Foreign n)
    with Cons show ?thesis by simp
  next
    case (Onevent k ev')
    with Cons.prems have ev': "ev' = ev" by simp
    have "invoke \<lparr>cleanups = entries 0 ks, done_fn = dn\<rparr> e args f \<lparr>emitters = host tbl, user = u\<rparr> =
        \<lparr>emitters = host tbl, user = dn (err_of ev args, e, ev, args) u\<rparr>"
      by (simp add: Onevent ev' listener_def callback_def cleanup_host err_of_def)
    with Cons show ?thesis
      by (simp add: Onevent funpow_swap1)
  qed
qed

lemma emit_armed:
  assumes "(e, ev) \<in> set ks"
  shows "emit \<lparr>cleanups = entries 0 ks, done_fn = dn\<rparr> e ev args \<lparr>emitters = armed tbl ks, user = u\<rparr> =
     \<lparr>emitters = host tbl, user = (dn (err_of ev args, e, ev, args) ^^ count_list ks (e, ev)) u\<rparr>"
proof -
  let ?r = "\<lparr>cleanups = entries 0 ks, done_fn = dn\<rparr>"
  let ?c = "(err_of ev args, e, ev, args)"
  let ?fs = "mine (entries 0 ks) e ev"
  from assms have "?fs \<noteq> []"
    by (simp add: mine_entries_empty)
  then obtain f fs where fs: "?fs = f # fs"
    by (cases ?fs) auto
  then have "f \<in> set ?fs" by simp
  then obtain k where f: "f = Onevent k ev"
    using mine_entries_event by blast
  have rest: "\<forall>g \<in> set fs. is_onevent g \<longrightarrow> (\<exists>k. g = Onevent k ev)"
    using mine_entries_event [of _ 0 ks e ev] fs by auto
  have all: "filter is_onevent fs = fs"
    using mine_entries_onevent [of 0 ks e ev] fs by (simp add: filter_all)
  have n: "Suc (length fs) = count_list ks (e, ev)"
    using mine_entries_count [of 0 ks e ev] fs by simp
  have "emit ?r e ev args \<lparr>emitters = armed tbl ks, user = u\<rparr> =
      foldl (\<lambda>w' g. invoke ?r e args g w') \<lparr>emitters = armed tbl ks, user = u\<rparr> (f # fs)"
    by (simp add: emit_def armed_def fs invoke_foreign_only)
  also have "\<dots> = foldl (\<lambda>w' g. invoke ?r e args g w') \<lparr>emitters = host tbl, user = dn ?c u\<rparr> fs"
    by (simp add: f listener_def callback_def cleanup_armed err_of_def)
  also have "\<dots> = \<lparr>emitters = host tbl, user = (dn ?c ^^ length fs) (dn ?c u)\<rparr>"
    using invoke_settled [OF rest, of ks dn e args tbl "dn ?c u"] by (simp add: all)
  finally show ?thesis
    by (simp add: funpow_swap1 flip: n)
qed

lemma emit_unwatched:
  assumes "(e, ev) \<notin> set ks"
  shows "emit r e ev args \<lparr>emitters = armed tbl ks, user = u\<rparr> = \<lparr>emitters = armed tbl ks, user = u\<rparr>"
proof -
  from assms have "mine (entries 0 ks) e ev = []"
    by (simp add: mine_entries_empty)
  then show ?thesis
    by (simp add: emit_def armed_def invoke_foreign_only)
qed

lemma cancel_armed:
  "cancel \<lparr>cleanups = entries 0 ks, done_fn = dn\<rparr> \<lparr>emitters = armed tbl ks, user = u\<rparr> =
     \<lparr>emitters = host tbl, user = u\<rparr>"
  by (simp add: cancel_def cleanup_armed)

lemma run_Cons: "run r (a # acts) w = run r acts (step r w a)"
  by (simp add: run_def)

lemma run_armed:
  "run \<lparr>cleanups = entries 0 ks, done_fn = dn\<rparr> acts \<lparr>emitters = armed tbl ks, user = u\<rparr> =
     outcome dn tbl ks u (winner ks acts)"
proof (induction acts)
  case Nil
  then show ?case by (simp add: run_def)
next
  case (Cons a acts)
  show ?case
  proof (cases a)
    case Cancel
    then show ?thesis by (simp add: run_Cons cancel_armed run_host)
  next
    case (Emit e ev args)
    show ?thesis
    proof (cases "(e, ev) \<in> set ks")
      case True
      then show ?thesis by (simp add: Emit run_Cons emit_armed run_host)
    next
      case False
      then show ?thesis using Cons by (simp add: Emit run_Cons emit_unwatched)
    qed
  qed
qed

lemma run_first:
  assumes "first (Array ms) dn (host tbl) = Inr (r, em)"
  shows "run r acts \<lparr>emitters = em, user = u\<rparr> = outcome dn tbl (watched ms) u (winner (watched ms) acts)"
  using first_armed [OF assms] by (simp add: run_armed)

lemma first_well_formed:
  "list_all well_formed ms \<Longrightarrow> \<exists>r em. first (Array ms) dn em0 = Inr (r, em)"
  using attach_members_ok [of ms em0 "[]"] by auto

text \<open>The equations that evaluate a race on concrete input.\<close>

lemmas race_eval = host_def no_listeners_def invocations_def listeners_at_throw_def run_def
  emit_def cancel_def on_def listener_def callback_def cleanup_def removeListener_def
  remove_last_def record_call_def Let_def

lemma record_call_funpow: "(record_call c ^^ n) log = log @ replicate n c"
proof (induction n arbitrary: log)
  case 0
  then show ?case by simp
next
  case (Suc n)
  have "(record_call c ^^ Suc n) log = (record_call c ^^ n) (record_call c log)"
    by (simp add: funpow_swap1)
  also have "\<dots> = (log @ [c]) @ replicate n c"
    by (simp only: Suc record_call_def)
  finally show ?case by (simp add: replicate_app_Cons_same)
qed

lemma invocations_outcome:
  assumes "list_all well_formed ms"
  shows "invocations (Array ms) tbl acts =
    Inr (user (outcome record_call tbl (watched ms) [] (winner (watched ms) acts)))"
proof -
  from first_well_formed [OF assms] obtain r em
    where f: "first (Array ms) record_call (host tbl) = Inr (r :: call list race, em)"
    by blast
  show ?thesis
    unfolding invocations_def by (simp only: f run_first [OF f] sum.case prod.case)
qed

lemma user_outcome_log:
  "user (outcome record_call tbl ks [] w) =
     (case w of Some (Emit e ev args) \<Rightarrow> replicate (count_list ks (e, ev)) (err_of ev args, e, ev, args)
      | _ \<Rightarrow> [])"
  by (cases "(record_call, tbl, ks, [] :: call list, w)" rule: outcome.cases)
    (simp_all add: record_call_funpow)


lemma count_list_pos: "k \<in> set ks \<Longrightarrow> 0 < count_list ks k"
  by (induction ks) auto

lemma winner_watched: "winner ks acts = Some (Emit e ev args) \<Longrightarrow> (e, ev) \<in> set ks"
  by (induction ks acts rule: winner.induct) (auto split: if_splits)

lemma winner_None:
  "winner ks acts = None \<longleftrightarrow>
     Cancel \<notin> set acts \<and> (\<forall>e ev args. Emit e ev args \<in> set acts \<longrightarrow> (e, ev) \<notin> set ks)"
proof (induction ks acts rule: winner.induct)
  case (1 ks)
  then show ?case by simp
next
  case (2 ks acts)
  then show ?case by simp
next
  case (3 ks e ev args acts)
  show ?case
  proof (cases "(e, ev) \<in> set ks")
    case True
    then show ?thesis by auto
  next
    case False
    with 3 show ?thesis by auto
  qed
qed

section \<open>Races among listeners that act\<close>





lemma thunk_record [simp]:
  "thunk fn \<lparr>cleanups = cl, done_fn = dn\<rparr> = \<lparr>cleanups = cl, done_fn = fn\<rparr>"
  by (simp add: thunk_def)

lemma call_listener_Foreign [simp]:
  "call_listener nested fb cb r this args (Foreign n) s = sequence nested (fb n) s"
  by (simp add: call_listener_def)

lemma call_listener_Onevent:
  "call_listener nested fb cb \<lparr>cleanups = cl, done_fn = dn\<rparr> this args (Onevent j ev) (wh, w) =
     sequence nested (cb wh (err_of ev args, this, ev, args))
       (wh, callback \<lparr>cleanups = cl, done_fn = recorder wh\<rparr> (err_of ev args, this, ev, args) w)"
  by (simp add: call_listener_def listener_def err_of_def Let_def)









text \<open>
  When no listener acts and the controller is not called, a run is \<open>run\<close>, for every
  positive depth.
\<close>

lemma call_listener_silent:
  "call_listener nested idle silent \<lparr>cleanups = cl, done_fn = dn\<rparr> e args f (wh, w) =
     Completed (wh, invoke \<lparr>cleanups = cl, done_fn = recorder wh\<rparr> e args f w)"
proof (cases f)
  case (Foreign n)
  then show ?thesis by (simp add: idle_def)
next
  case (Onevent j ev)
  then show ?thesis
    by (simp add: call_listener_Onevent silent_def listener_def err_of_def)
qed

lemma sequence_silent:
  "sequence (call_listener nested idle silent \<lparr>cleanups = cl, done_fn = dn\<rparr> e args) fs (wh, w) =
     Completed (wh, foldl (\<lambda>w' f. invoke \<lparr>cleanups = cl, done_fn = recorder wh\<rparr> e args f w') w fs)"
  by (induction fs arbitrary: w) (simp_all add: call_listener_silent)

lemma perform_silent:
  "perform (Suc k) idle silent \<lparr>cleanups = cl, done_fn = dn\<rparr> (embed a) (wh, w) =
     Completed (wh, step \<lparr>cleanups = cl, done_fn = recorder wh\<rparr> w a)"
  by (cases a) (simp_all add: sequence_silent emit_def)

lemma run_silent:
  "sequence (perform (Suc k) idle silent \<lparr>cleanups = cl, done_fn = dn\<rparr>) (map embed acts) (wh, w) =
     Completed (wh, run \<lparr>cleanups = cl, done_fn = recorder wh\<rparr> acts w)"
proof (induction acts arbitrary: w)
  case Nil
  then show ?case by (simp add: run_def)
next
  case (Cons a acts)
  then show ?case
    by (simp add: perform_silent run_Cons del: perform.simps)
qed

lemma completed_map [simp]: "completed (map_progress f p) = completed p"
  by (cases p) simp_all

lemma content_map [simp]: "content (map_progress f p) = f (content p)"
  by (cases p) simp_all


section \<open>Properties of the race\<close>




text \<open>
  C2, as stated, fails. \<^verbatim>\<open>first\<close> checks a member only when its loop reaches it, after
  it has attached the listeners of the members before: for
  \<^verbatim>\<open>[[ee0, 'a'], [ee1]]\<close> the exception is raised while the listener for \<^verbatim>\<open>'a'\<close> is
  registered on \<^verbatim>\<open>ee0\<close>.
\<close>

theorem partial_attachment_counterexample:
  "listeners_at_throw
     (first (Array [Arr 0 [''a''], Arr 1 []]) record_call (host no_listeners)) 0 ''a'' =
   Some [Onevent 0 ''a'']"
  by (simp add: race_eval)

lemma attach_members_malformed:
  assumes "\<not> list_all well_formed ms"
  shows "attach_members ms (em, cl) =
     Inl (TypeError ''each array member must be [ee, events...]'',
          attach_all (entries (length cl) (watched (takeWhile well_formed ms))) em)"
  using assms
proof (induction ms arbitrary: em cl)
  case Nil
  then show ?case by simp
next
  case (Cons m ms)
  show ?case
  proof (cases m)
    case NonArray
    then show ?thesis by (simp add: attach_all_def)
  next
    case Arr0
    then show ?thesis by (simp add: attach_all_def)
  next
    case (Arr e evs)
    show ?thesis
    proof (cases "evs = []")
      case True
      with Arr show ?thesis by (simp add: attach_all_def)
    next
      case False
      with Cons.prems Arr have "\<not> list_all well_formed ms" by simp
      from Cons.IH [OF this] False Arr show ?thesis
        by (simp add: attach_events_entries entries_append attach_all_append)
    qed
  qed
qed

lemma attach_members_well_formed:
  assumes "list_all well_formed ms"
  shows "attach_members ms (em, cl) =
     Inr (attach_all (entries (length cl) (watched ms)) em, cl @ entries (length cl) (watched ms))"
proof -
  from attach_members_ok [OF assms] obtain em' cl'
    where r: "attach_members ms (em, cl) = Inr (em', cl')"
    by (metis surj_pair)
  from attach_members_entries [OF r] r show ?thesis by simp
qed

lemma list_all_takeWhile: "list_all P (takeWhile P xs)"
  by (induction xs) auto

text \<open>
  C2, amended: on malformed input \<^verbatim>\<open>first\<close> raises a \<^verbatim>\<open>TypeError\<close> synchronously.
  When the argument is not an array, or its first member is malformed, no listener
  has been attached at that moment. Otherwise the listeners attached at that moment
  are exactly those of the well-formed members before the first malformed one: the
  tables are the ones \<^verbatim>\<open>first\<close> returns with on that prefix alone.
\<close>

theorem first_rejects_malformed:
  assumes "\<not> list_all well_formed ms"
  shows "first NotArray dn em =
       Inl (TypeError ''arg must be an array of [ee, events...] arrays'', em) \<and>
     (\<exists>r em'. first (Array (takeWhile well_formed ms)) dn em = Inr (r, em') \<and>
        first (Array ms) dn em =
          Inl (TypeError ''each array member must be [ee, events...]'', em')) \<and>
     (\<not> well_formed (hd ms) \<longrightarrow>
        first (Array ms) dn em =
          Inl (TypeError ''each array member must be [ee, events...]'', em))"
proof -
  let ?em' = "attach_all (entries 0 (watched (takeWhile well_formed ms))) em"
  from assms have ne: "ms \<noteq> []" by auto
  have thrown: "first (Array ms) dn em =
      Inl (TypeError ''each array member must be [ee, events...]'', ?em')"
    using attach_members_malformed [OF assms, of em "[]"] by simp
  have prefix: "\<exists>r. first (Array (takeWhile well_formed ms)) dn em = Inr (r, ?em')"
    using attach_members_well_formed [of "takeWhile well_formed ms" em "[]"]
    by (simp add: list_all_takeWhile)
  have "\<not> well_formed (hd ms) \<Longrightarrow> ?em' = em"
    using ne by (cases ms) (simp_all add: attach_all_def)
  with thrown prefix show ?thesis
    by auto
qed

theorem first_rejects_malformed_witness:
  "\<not> list_all well_formed [Arr 0 [''a''], Arr 1 [], Arr 2 [''c'']] \<and>
   listeners_at_throw (first (Array [Arr 0 [''a''], Arr 1 [], Arr 2 [''c'']]) record_call
       (host no_listeners)) 0 ''a'' = Some [Onevent 0 ''a''] \<and>
   listeners_at_throw (first (Array [Arr 0 [''a''], Arr 1 [], Arr 2 [''c'']]) record_call
       (host no_listeners)) 2 ''c'' = Some [] \<and>
   \<not> list_all well_formed [Arr0, Arr 0 [''a'']] \<and>
   \<not> well_formed (hd [Arr0, Arr 0 [''a'']]) \<and>
   first (Array [Arr0, Arr 0 [''a'']]) record_call (host no_listeners) =
     Inl (TypeError ''each array member must be [ee, events...]'', host no_listeners)"
  using first_rejects_malformed [of "[Arr 0 [''a''], Arr 1 [], Arr 2 [''c'']]"
      record_call "host no_listeners"]
    first_rejects_malformed [of "[Arr0, Arr 0 [''a'']]" record_call "host no_listeners"]
  by (simp add: race_eval)

lemma winner_Some:
  "winner ks acts \<noteq> None \<longleftrightarrow>
     Cancel \<in> set acts \<or> (\<exists>e ev args. Emit e ev args \<in> set acts \<and> (e, ev) \<in> set ks)"
  by (simp add: winner_None)

lemma emitters_outcome_settled:
  "w \<noteq> None \<Longrightarrow> emitters (outcome dn tbl ks u w) = host tbl"
  by (cases "(dn, tbl, ks, u, w)" rule: outcome.cases) simp_all

text \<open>
  C3: after a race has settled, by a watched event or by \<^verbatim>\<open>cancel()\<close>, every listener
  table is what it was before the race started; no listener of the race remains on
  any source, whatever else the action sequence holds.
\<close>

theorem listeners_removed_after_settle:
  assumes "first (Array ms) dn (host tbl) = Inr (r, em)"
    and "Cancel \<in> set acts \<or>
      (\<exists>e ev args. Emit e ev args \<in> set acts \<and> (e, ev) \<in> set (watched ms))"
  shows "emitters (run r acts \<lparr>emitters = em, user = u\<rparr>) = host tbl \<and>
    (\<forall>e ev. filter is_onevent (emitters (run r acts \<lparr>emitters = em, user = u\<rparr>) e ev) = [])"
proof -
  from assms(2) have "winner (watched ms) acts \<noteq> None"
    by (simp only: winner_Some)
  then have "emitters (run r acts \<lparr>emitters = em, user = u\<rparr>) = host tbl"
    by (simp add: run_first [OF assms(1)] emitters_outcome_settled)
  then show ?thesis
    by (simp add: host_def)
qed

theorem listeners_removed_after_settle_witness:
  "\<exists>r em. first (Array [Arr 0 [''a'', ''b''], Arr 1 [''a''], Arr 2 [''c'', ''d'']])
       record_call (host no_listeners) = Inr (r, em) \<and>
     em 0 ''a'' = [Onevent 0 ''a''] \<and> em 2 ''d'' = [Onevent 4 ''d''] \<and>
     (Cancel \<in> set [Emit 1 ''a'' [JNum 4]] \<or>
       (\<exists>e ev args. Emit e ev args \<in> set [Emit 1 ''a'' [JNum 4]] \<and>
          (e, ev) \<in> set (watched [Arr 0 [''a'', ''b''], Arr 1 [''a''], Arr 2 [''c'', ''d'']]))) \<and>
     emitters (run r [Emit 1 ''a'' [JNum 4]] \<lparr>emitters = em, user = []\<rparr>) = host no_listeners"
proof -
  let ?ms = "[Arr 0 [''a'', ''b''], Arr 1 [''a''], Arr 2 [''c'', ''d'']]"
  obtain r :: "call list race" and em
    where f: "first (Array ?ms) record_call (host no_listeners) = Inr (r, em)"
    by (simp add: Let_def)
  have em: "em 0 ''a'' = [Onevent 0 ''a''] \<and> em 2 ''d'' = [Onevent 4 ''d'']"
    using f by (auto simp: race_eval)
  have s: "Cancel \<in> set [Emit 1 ''a'' [JNum 4]] \<or>
       (\<exists>e ev args. Emit e ev args \<in> set [Emit 1 ''a'' [JNum 4]] \<and> (e, ev) \<in> set (watched ?ms))"
    by simp
  from listeners_removed_after_settle [OF f s, of "[]"] f em s show ?thesis
    by blast
qed

lemma user_outcome_cases:
  "user (outcome dn tbl ks u w) =
     (case w of Some (Emit e ev args) \<Rightarrow> (dn (err_of ev args, e, ev, args) ^^ count_list ks (e, ev)) u
      | _ \<Rightarrow> u)"
  by (cases "(dn, tbl, ks, u, w)" rule: outcome.cases) simp_all

lemma cancel_outcome:
  "cancel \<lparr>cleanups = entries 0 ks, done_fn = dn\<rparr> (outcome dn tbl ks u w) =
     \<lparr>emitters = host tbl, user = user (outcome dn tbl ks u w)\<rparr>"
  by (cases "(dn, tbl, ks, u, w)" rule: outcome.cases)
    (simp_all add: cancel_armed cancel_host)

lemma outcome_settled:
  "w \<noteq> None \<Longrightarrow>
     outcome dn tbl ks u w = \<lparr>emitters = host tbl, user = user (outcome dn tbl ks u w)\<rparr>"
  by (cases "(dn, tbl, ks, u, w)" rule: outcome.cases) simp_all

text \<open>
  C4: in every state \<open>w\<close> a race can reach, \<^verbatim>\<open>cancel()\<close> leaves the listener tables as
  they were before the race started and does not touch the caller's state, so the
  callback is not invoked. A second \<^verbatim>\<open>cancel()\<close> changes nothing, no later action
  changes anything (no callback invocation follows), and on a race that has already
  settled \<^verbatim>\<open>cancel()\<close> changes nothing at all. \<open>cancel\<close> has no error result:
  \<^verbatim>\<open>removeListener\<close> of a listener that is not registered is no error.
\<close>

theorem cancel_idempotent:
  assumes "first (Array ms) dn (host tbl) = Inr (r, em)"
    and "w = run r acts \<lparr>emitters = em, user = u\<rparr>"
  shows "emitters (cancel r w) = host tbl \<and>
     user (cancel r w) = user w \<and>
     cancel r (cancel r w) = cancel r w \<and>
     run r later (cancel r w) = cancel r w \<and>
     (Cancel \<in> set acts \<or>
        (\<exists>e ev args. Emit e ev args \<in> set acts \<and> (e, ev) \<in> set (watched ms))
      \<longrightarrow> cancel r w = w)"
proof -
  let ?ks = "watched ms"
  let ?o = "outcome dn tbl ?ks u (winner ?ks acts)"
  have r: "r = \<lparr>cleanups = entries 0 ?ks, done_fn = dn\<rparr>"
    by (rule first_armed(1) [OF assms(1)])
  have w: "w = ?o"
    by (simp only: assms(2) run_first [OF assms(1)])
  have c: "cancel r w = \<lparr>emitters = host tbl, user = user w\<rparr>"
    by (simp only: r w cancel_outcome)
  have twice: "cancel r (cancel r w) = cancel r w"
    by (simp only: c) (simp only: r cancel_host)
  have later: "run r later (cancel r w) = cancel r w"
    by (simp only: c) (simp only: r run_host)
  have settled: "cancel r w = w"
    if "Cancel \<in> set acts \<or>
        (\<exists>e ev args. Emit e ev args \<in> set acts \<and> (e, ev) \<in> set (watched ms))"
  proof -
    from that have "winner ?ks acts \<noteq> None"
      by (simp only: winner_Some)
    from outcome_settled [OF this, of dn tbl ?ks u]
    have "w = \<lparr>emitters = host tbl, user = user w\<rparr>"
      by (simp only: w)
    with c show ?thesis by simp
  qed
  show ?thesis
  proof (intro conjI impI)
    show "emitters (cancel r w) = host tbl" by (simp add: c)
    show "user (cancel r w) = user w" by (simp add: c)
    show "cancel r (cancel r w) = cancel r w" by (rule twice)
    show "run r later (cancel r w) = cancel r w" by (rule later)
  qed (rule settled)
qed

theorem cancel_idempotent_witness:
  "\<exists>r em. first (Array [Arr 0 [''a'', ''b''], Arr 1 [''a'']]) record_call (host no_listeners)
        = Inr (r, em) \<and>
     em 0 ''b'' = [Onevent 1 ''b''] \<and>
     emitters (cancel r (run r [Emit 1 ''c'' []] \<lparr>emitters = em, user = []\<rparr>)) = host no_listeners \<and>
     user (run r [Emit 0 ''b'' [], Emit 1 ''a'' []]
       (cancel r (run r [Emit 1 ''c'' []] \<lparr>emitters = em, user = []\<rparr>))) = [] \<and>
     (Cancel \<in> set [Emit 1 ''a'' []] \<or>
        (\<exists>e ev args. Emit e ev args \<in> set [Emit 1 ''a'' []] \<and>
           (e, ev) \<in> set (watched [Arr 0 [''a'', ''b''], Arr 1 [''a'']]))) \<and>
     cancel r (run r [Emit 1 ''a'' []] \<lparr>emitters = em, user = []\<rparr>) =
       run r [Emit 1 ''a'' []] \<lparr>emitters = em, user = []\<rparr> \<and>
     user (run r [Emit 1 ''a'' []] \<lparr>emitters = em, user = []\<rparr>) = [(JNull, 1, ''a'', [])]"
proof -
  let ?ms = "[Arr 0 [''a'', ''b''], Arr 1 [''a'']]"
  obtain r :: "call list race" and em
    where f: "first (Array ?ms) record_call (host no_listeners) = Inr (r, em)"
    by (simp add: Let_def)
  have em: "em 0 ''b'' = [Onevent 1 ''b'']"
    using f by (auto simp: race_eval)
  have s: "Cancel \<in> set [Emit 1 ''a'' []] \<or>
        (\<exists>e ev args. Emit e ev args \<in> set [Emit 1 ''a'' []] \<and> (e, ev) \<in> set (watched ?ms))"
    by simp
  have won: "user (run r [Emit 1 ''a'' []] \<lparr>emitters = em, user = []\<rparr>) = [(JNull, 1, ''a'', [])]"
    using f by (auto simp: race_eval)
  from cancel_idempotent [OF f refl, of "[Emit 1 ''c'' []]" "[]" "[Emit 0 ''b'' [], Emit 1 ''a'' []]"]
  have a: "emitters (cancel r (run r [Emit 1 ''c'' []] \<lparr>emitters = em, user = []\<rparr>)) = host no_listeners"
    and b: "user (run r [Emit 0 ''b'' [], Emit 1 ''a'' []]
       (cancel r (run r [Emit 1 ''c'' []] \<lparr>emitters = em, user = []\<rparr>))) =
       user (run r [Emit 1 ''c'' []] \<lparr>emitters = em, user = []\<rparr>)"
    by simp_all
  have b': "user (run r [Emit 1 ''c'' []] \<lparr>emitters = em, user = []\<rparr>) = []"
    using f by (auto simp: race_eval)
  from cancel_idempotent [OF f refl, of "[Emit 1 ''a'' []]" "[]" "[]"] s
  have c: "cancel r (run r [Emit 1 ''a'' []] \<lparr>emitters = em, user = []\<rparr>) =
       run r [Emit 1 ''a'' []] \<lparr>emitters = em, user = []\<rparr>"
    by blast
  from f em a b b' s c won show ?thesis
    by (intro exI [of _ r] exI [of _ em]) simp
qed

lemma invocations_Inr:
  assumes "invocations (Array ms) tbl acts = Inr log"
  shows "log = user (outcome record_call tbl (watched ms) [] (winner (watched ms) acts))"
proof -
  from assms obtain r :: "call list race" and em
    where f: "first (Array ms) record_call (host tbl) = Inr (r, em)"
    unfolding invocations_def by (auto split: sum.splits)
  from assms show ?thesis
    unfolding invocations_def by (simp only: f run_first [OF f] sum.case prod.case sum.inject)
qed

text \<open>
  C7: when a race settles on the event \<open>ev\<close> of source \<open>e\<close> emitted with \<open>args\<close>, the
  callback is invoked, and every invocation has the arguments
  \<^verbatim>\<open>(err, e, ev, args)\<close> where \<^verbatim>\<open>err\<close> is the event's first argument if \<open>ev\<close> is
  \<^verbatim>\<open>'error'\<close> and \<^verbatim>\<open>null\<close> for every other name. The error reaches the caller as an
  argument of the callback.
\<close>

theorem error_argument:
  assumes "invocations (Array ms) tbl acts = Inr log"
    and "winner (watched ms) acts = Some (Emit e ev args)"
  shows "log \<noteq> [] \<and> set log = {(if ev = ''error'' then arg1 args else JNull, e, ev, args)}"
proof -
  from assms(2) have "0 < count_list (watched ms) (e, ev)"
    by (simp add: count_list_pos winner_watched)
  moreover have "log = replicate (count_list (watched ms) (e, ev)) (err_of ev args, e, ev, args)"
    by (simp only: invocations_Inr [OF assms(1)] user_outcome_log assms(2) option.case
        action.case)
  ultimately show ?thesis
    by (simp add: err_of_def)
qed

theorem error_argument_witness:
  "invocations (Array [Arr 0 [''end'', ''error''], Arr 1 [''error'']]) no_listeners
      [Emit 0 ''close'' [JNum 1], Emit 1 ''error'' [JError ''boom'', JNum 2], Emit 0 ''end'' []] =
     Inr [(JError ''boom'', 1, ''error'', [JError ''boom'', JNum 2])] \<and>
   winner (watched [Arr 0 [''end'', ''error''], Arr 1 [''error'']])
      [Emit 0 ''close'' [JNum 1], Emit 1 ''error'' [JError ''boom'', JNum 2], Emit 0 ''end'' []] =
     Some (Emit 1 ''error'' [JError ''boom'', JNum 2]) \<and>
   set [(JError ''boom'', 1, ''error'', [JError ''boom'', JNum 2])] =
     {(if ''error'' = ''error'' then arg1 [JError ''boom'', JNum 2] else JNull, 1, ''error'',
       [JError ''boom'', JNum 2])} \<and>
   invocations (Array [Arr 0 [''end'', ''error'']]) no_listeners [Emit 0 ''end'' [JStr ''x'']] =
     Inr [(JNull, 0, ''end'', [JStr ''x''])]"
proof -
  let ?ms = "[Arr 0 [''end'', ''error''], Arr 1 [''error'']]"
  let ?acts = "[Emit 0 ''close'' [JNum 1], Emit 1 ''error'' [JError ''boom'', JNum 2], Emit 0 ''end'' []]"
  have i: "invocations (Array ?ms) no_listeners ?acts =
      Inr [(JError ''boom'', 1, ''error'', [JError ''boom'', JNum 2])]"
    by (simp add: race_eval)
  have w: "winner (watched ?ms) ?acts = Some (Emit 1 ''error'' [JError ''boom'', JNum 2])"
    by simp
  have j: "invocations (Array [Arr 0 [''end'', ''error'']]) no_listeners [Emit 0 ''end'' [JStr ''x'']] =
     Inr [(JNull, 0, ''end'', [JStr ''x''])]"
    by (simp add: race_eval)
  from error_argument [OF i w] i w j show ?thesis
    by simp
qed

lemma winner_set_cong: "set ks = set ks' \<Longrightarrow> winner ks acts = winner ks' acts"
  by (induction ks acts rule: winner.induct) simp_all

lemma user_outcome_cong:
  assumes "set ks = set ks'" and "\<And>k. count_list ks k = count_list ks' k"
  shows "user (outcome dn tbl ks u (winner ks acts)) = user (outcome dn tbl' ks' u (winner ks' acts))"
  by (simp add: user_outcome_cases winner_set_cong [OF assms(1)] assms(2)
      split: option.splits action.splits)

lemma watched_Cons: "watched (m # ms) = watched [m] @ watched ms"
  by (cases m) simp_all

lemma mset_watched:
  "mset (watched ms) = (\<Sum>m \<in># mset ms. mset (watched [m]))"
proof (induction ms)
  case Nil
  then show ?case by simp
next
  case (Cons m ms)
  have "mset (watched (m # ms)) = mset (watched [m]) + mset (watched ms)"
    by (subst watched_Cons) simp
  with Cons show ?case by simp
qed

lemma watched_reordered:
  assumes "mset ms' = mset ms"
  shows "set (watched ms') = set (watched ms)"
    and "count_list (watched ms') k = count_list (watched ms) k"
proof -
  have "mset (watched ms') = (\<Sum>m \<in># mset ms'. mset (watched [m]))"
    by (rule mset_watched)
  also have "\<dots> = (\<Sum>m \<in># mset ms. mset (watched [m]))"
    by (simp only: assms)
  also have "\<dots> = mset (watched ms)"
    by (rule mset_watched [symmetric])
  finally have m: "mset (watched ms') = mset (watched ms)" .
  show "set (watched ms') = set (watched ms)"
    by (rule mset_eq_setD [OF m])
  show "count_list (watched ms') k = count_list (watched ms) k"
    using m by (simp flip: count_mset)
qed

lemma well_formed_reordered:
  assumes "mset ms' = mset ms"
  shows "list_all well_formed ms' \<longleftrightarrow> list_all well_formed ms"
  using mset_eq_setD [OF assms] by (simp add: list_all_iff)

lemma invocations_malformed:
  assumes "\<not> list_all well_formed ms"
  shows "invocations (Array ms) tbl acts =
     Inl (TypeError ''each array member must be [ee, events...]'')"
  using attach_members_malformed [OF assms, of "host tbl" "[]"]
  by (simp add: invocations_def)

lemma invocations_reordered:
  assumes "mset ms' = mset ms"
  shows "invocations (Array ms') tbl acts = invocations (Array ms) tbl acts"
proof (cases "list_all well_formed ms")
  case True
  then have wf': "list_all well_formed ms'"
    by (simp add: well_formed_reordered [OF assms])
  show ?thesis
    using user_outcome_cong [OF watched_reordered [OF assms], of record_call tbl "[]" acts tbl]
    by (simp only: invocations_outcome [OF True] invocations_outcome [OF wf'])
next
  case False
  then have "\<not> list_all well_formed ms'"
    by (simp add: well_formed_reordered [OF assms])
  with False show ?thesis
    by (simp add: invocations_malformed)
qed

text \<open>
  C8: take any race and any reordering \<open>ms'\<close> of its members \<open>ms\<close>. The invocations of
  the callback are the same for both orders, for every sequence of actions; and for
  every watched source \<open>x\<close> and event \<open>ev\<close>, when that event is the first delivered,
  the callback reports \<open>x\<close> and \<open>ev\<close>, in both orders. So of two watched sources the
  one whose event is delivered first wins, wherever their members stand.
\<close>

theorem winner_is_first_delivered:
  assumes "mset ms' = mset ms"
    and "list_all well_formed ms"
    and "(x, ev) \<in> set (watched ms)"
  shows "invocations (Array ms') tbl acts = invocations (Array ms) tbl acts \<and>
     (\<exists>n. 0 < n \<and>
        invocations (Array ms) tbl (Emit x ev args # rest) =
          Inr (replicate n (if ev = ''error'' then arg1 args else JNull, x, ev, args)) \<and>
        invocations (Array ms') tbl (Emit x ev args # rest) =
          Inr (replicate n (if ev = ''error'' then arg1 args else JNull, x, ev, args)))"
proof -
  have same: "invocations (Array ms') tbl acts' = invocations (Array ms) tbl acts'" for acts'
    by (rule invocations_reordered [OF assms(1)])
  from assms(3) have n: "0 < count_list (watched ms) (x, ev)"
    by (rule count_list_pos)
  have "winner (watched ms) (Emit x ev args # rest) = Some (Emit x ev args)"
    using assms(3) by simp
  then have "invocations (Array ms) tbl (Emit x ev args # rest) =
      Inr (replicate (count_list (watched ms) (x, ev)) (err_of ev args, x, ev, args))"
    by (simp only: invocations_outcome [OF assms(2)] user_outcome_log option.case action.case)
  with n same show ?thesis
    unfolding err_of_def by metis
qed


theorem winner_is_first_delivered_witness:
  "mset [Arr 2 [''data''], Arr 0 [''end'', ''close''], Arr 1 [''data'', ''error'']] =
     mset [Arr 0 [''end'', ''close''], Arr 1 [''data'', ''error''], Arr 2 [''data'']] \<and>
   list_all well_formed [Arr 0 [''end'', ''close''], Arr 1 [''data'', ''error''], Arr 2 [''data'']] \<and>
   (1, ''data'') \<in> set (watched [Arr 0 [''end'', ''close''], Arr 1 [''data'', ''error''], Arr 2 [''data'']]) \<and>
   invocations (Array [Arr 2 [''data''], Arr 0 [''end'', ''close''], Arr 1 [''data'', ''error'']])
     no_listeners [Emit 1 ''data'' [JNum 5], Emit 0 ''end'' []] = Inr [(JNull, 1, ''data'', [JNum 5])] \<and>
   invocations (Array [Arr 0 [''end'', ''close''], Arr 1 [''data'', ''error''], Arr 2 [''data'']])
     no_listeners [Emit 1 ''data'' [JNum 5], Emit 0 ''end'' []] = Inr [(JNull, 1, ''data'', [JNum 5])] \<and>
   invocations (Array [Arr 2 [''data''], Arr 0 [''end'', ''close''], Arr 1 [''data'', ''error'']])
     no_listeners [Emit 0 ''end'' [], Emit 1 ''data'' [JNum 5]] = Inr [(JNull, 0, ''end'', [])] \<and>
   invocations (Array [Arr 0 [''end'', ''close''], Arr 1 [''data'', ''error''], Arr 2 [''data'']])
     no_listeners [Emit 0 ''end'' [], Emit 1 ''data'' [JNum 5]] = Inr [(JNull, 0, ''end'', [])]"
  using winner_is_first_delivered [where ms' = "[Arr 2 [''data''], Arr 0 [''end'', ''close''], Arr 1 [''data'', ''error'']]"
      and ms = "[Arr 0 [''end'', ''close''], Arr 1 [''data'', ''error''], Arr 2 [''data'']]"
      and x = 1 and ev = "''data''" and tbl = no_listeners
      and acts = "[Emit 0 ''end'' [], Emit 1 ''data'' [JNum 5]]" and args = "[JNum 5]"
      and rest = "[Emit 0 ''end'' []]"]
  by (simp add: race_eval)

text \<open>
  C9: \<^verbatim>\<open>first([], done)\<close> raises nothing, attaches no listener and returns a controller
  with no cleanups. Nothing that happens afterwards changes the listener tables or
  invokes the callback, and \<^verbatim>\<open>cancel()\<close> changes nothing.
\<close>

theorem empty_race:
  "first (Array []) dn em = Inr (\<lparr>cleanups = [], done_fn = dn\<rparr>, em) \<and>
   run \<lparr>cleanups = [], done_fn = dn\<rparr> acts \<lparr>emitters = host tbl, user = u\<rparr> =
     \<lparr>emitters = host tbl, user = u\<rparr> \<and>
   cancel \<lparr>cleanups = [], done_fn = dn\<rparr> w = w \<and>
   invocations (Array []) tbl acts = Inr []"
  using run_host [of "[]" dn acts tbl u] run_host [of "[]" record_call acts tbl "[]"]
  by (simp add: invocations_def cancel_def cleanup_def)

section \<open>Properties of the check provider\<close>

lemma on_first_settled [simp]:
  "on_first data c (Resolved v) = Resolved v" "on_first data c (Rejected m) = Rejected m"
  by (cases c; simp add: resolve_def)+

lemma on_first_funpow_Resolved: "(on_first data c ^^ n) (Resolved v) = Resolved v"
  by (induction n) simp_all

lemma on_first_funpow_Pending:
  "0 < n \<Longrightarrow> (on_first data c ^^ n) Pending = on_first data c Pending"
proof (induction n)
  case 0
  then show ?case by simp
next
  case (Suc n)
  have "\<exists>v. on_first data c Pending = Resolved v"
    by (cases c) (simp add: resolve_def)
  then obtain v where "on_first data c Pending = Resolved v"
    by blast
  then show ?case
    by (simp add: funpow_swap1 on_first_funpow_Resolved)
qed

lemma check_outcome:
  "check data evs =
     user (outcome (on_first data) no_listeners check_watched Pending
       (winner check_watched (map host_action evs)))"
proof -
  let ?ms = "[Arr cancelEmitter [''cancel''], Arr doneEmitter [''done'']]"
  have "list_all well_formed ?ms" by simp
  from first_well_formed [OF this] obtain r em
    where f: "first (Array ?ms) (on_first data) (host no_listeners) = Inr (r, em)"
    by blast
  have w: "watched ?ms = check_watched"
    by (simp add: check_watched_def)
  show ?thesis
    unfolding check_def by (simp only: f run_first [OF f] w sum.case prod.case)
qed

text \<open>
  C5: when the timer's \<^verbatim>\<open>'done'\<close> event is delivered before any cancellation, the
  promise of \<^verbatim>\<open>check\<close> resolves with the configured findings, unchanged, whatever
  the host does afterwards.
\<close>

theorem check_done_wins:
  "check data (TimerFired # evs) = Resolved \<lparr>checks = data\<rparr>"
  by (simp add: check_outcome check_watched_def cancelEmitter_def doneEmitter_def resolve_def)

text \<open>
  C6: when the \<^verbatim>\<open>'cancel'\<close> event is delivered first, the promise resolves with the
  empty list of findings; and for no sequence of timer and cancellation events is the
  promise rejected.
\<close>

theorem check_cancel_wins:
  "check data (CancellationRequested # evs) = Resolved \<lparr>checks = []\<rparr> \<and>
   (\<forall>evs' msg. check data evs' \<noteq> Rejected msg)"
proof -
  have "check data (CancellationRequested # evs) = Resolved \<lparr>checks = []\<rparr>"
    by (simp add: check_outcome check_watched_def cancelEmitter_def doneEmitter_def resolve_def)
  moreover have "check data evs' \<noteq> Rejected msg" for evs' msg
  proof (cases "winner check_watched (map host_action evs')")
    case None
    then show ?thesis by (simp add: check_outcome)
  next
    case (Some a)
    show ?thesis
    proof (cases a)
      case Cancel
      with Some show ?thesis by (simp add: check_outcome)
    next
      case (Emit e ev args)
      with Some have "0 < count_list check_watched (e, ev)"
        using winner_watched [of check_watched "map host_action evs'" e ev args]
        by (simp add: count_list_pos)
      with Some Emit show ?thesis
        by (simp add: check_outcome on_first_funpow_Pending resolve_def)
    qed
  qed
  ultimately show ?thesis by blast
qed

text \<open>
  C10: the function \<^verbatim>\<open>check\<close> passes to \<^verbatim>\<open>first\<close> resolves the promise with the
  empty list of findings for every event name other than \<^verbatim>\<open>'done'\<close>. So in any race
  that uses it, a winning event with another name, \<^verbatim>\<open>'error'\<close> included, leaves the
  promise resolved with no findings, not rejected.
\<close>

theorem non_done_resolves_empty:
  assumes "first (Array ms) (on_first data) (host tbl) = Inr (r, em)"
    and "winner (watched ms) acts = Some (Emit e ev args)"
    and "ev \<noteq> ''done''"
  shows "user (run r acts \<lparr>emitters = em, user = Pending\<rparr>) = Resolved \<lparr>checks = []\<rparr> \<and>
     on_first data (err, this, ev, args') Pending = Resolved \<lparr>checks = []\<rparr>"
proof -
  from assms(2) have "0 < count_list (watched ms) (e, ev)"
    by (simp add: count_list_pos winner_watched)
  with assms(2,3) show ?thesis
    by (simp add: run_first [OF assms(1)] on_first_funpow_Pending resolve_def)
qed

theorem non_done_resolves_empty_witness:
  "\<exists>r em. first (Array [Arr 0 [''cancel'', ''error''], Arr 1 [''done'']]) (on_first [''finding''])
        (host no_listeners) = Inr (r, em) \<and>
     winner (watched [Arr 0 [''cancel'', ''error''], Arr 1 [''done'']])
        [Emit 0 ''error'' [JError ''boom''], Emit 1 ''done'' []] =
       Some (Emit 0 ''error'' [JError ''boom'']) \<and>
     ''error'' \<noteq> ''done'' \<and>
     user (run r [Emit 0 ''error'' [JError ''boom''], Emit 1 ''done'' []]
       \<lparr>emitters = em, user = Pending\<rparr>) = Resolved \<lparr>checks = []\<rparr>"
proof -
  let ?ms = "[Arr 0 [''cancel'', ''error''], Arr 1 [''done'']]"
  let ?acts = "[Emit 0 ''error'' [JError ''boom''], Emit 1 ''done'' []]"
  obtain r :: "string promise race" and em
    where f: "first (Array ?ms) (on_first [''finding'']) (host no_listeners) = Inr (r, em)"
    by (simp add: Let_def)
  have w: "winner (watched ?ms) ?acts = Some (Emit 0 ''error'' [JError ''boom''])"
    by simp
  have d: "''error'' \<noteq> ''done''"
    by simp
  from non_done_resolves_empty [OF f w d] f w d show ?thesis
    by blast
qed

end
